theory Spec2Isabelle
  imports Main "HOL-Library.Multiset" "HOL-Library.Word"
begin

section \<open>The free store\<close>

text \<open>
  A pointer \<^verbatim>\<open>Node*\<close> is an optional address; \<open>None\<close> is \<^verbatim>\<open>nullptr\<close>.
  The free store is a list of cells indexed by address. A cell is \<open>Some n\<close> while
  the node is allocated and \<open>None\<close> once it has been deleted. \<^verbatim>\<open>new Node()\<close>
  extends the store by one cell, so the address it returns is never one in use.
\<close>

type_synonym ptr = "nat option"

text \<open>
  The C++ \<^verbatim>\<open>int\<close>s (values, indices, the counter) are 32-bit words, read as two's
  complement by \<open>sint\<close>. The arithmetic the code does on them, \<^verbatim>\<open>length++\<close>,
  \<^verbatim>\<open>length--\<close>, \<^verbatim>\<open>index - 2\<close> and \<^verbatim>\<open>i++\<close>, wraps around: where C++ leaves a
  signed overflow undefined, the model does what two's complement hardware does.
\<close>

type_synonym int32 = "32 word"

text \<open>
  Modelled from the spec: the declaration of \<^verbatim>\<open>Node\<close> in \<^verbatim>\<open>LinkedList.h\<close>, which is
  not among the sources. A node holds one integer value and a link to the next node (or
  none, for the last node). It has no destructor of its own: deleting a node releases
  that node alone.
\<close>

record Node =
  data :: int32
  "next" :: ptr

type_synonym heap = "Node option list"

text \<open>
  Undefined behaviour of the C++ code is a value of the model: reading or writing
  through \<^verbatim>\<open>nullptr\<close>, or through a pointer to a deleted node.
\<close>

datatype fault = NullDereference | InvalidPointer

definition lookup :: "heap \<Rightarrow> nat \<Rightarrow> Node option" where
  "lookup h a = (if a < length h then h ! a else None)"

definition deref :: "heap \<Rightarrow> ptr \<Rightarrow> fault + Node" where
  "deref h p =
     (case p of
        None \<Rightarrow> Inl NullDereference
      | Some a \<Rightarrow> (case lookup h a of None \<Rightarrow> Inl InvalidPointer | Some n \<Rightarrow> Inr n))"

definition new_Node :: "heap \<Rightarrow> nat \<times> heap" where
  "new_Node h = (length h, h @ [Some \<lparr>data = 0, next = None\<rparr>])"

definition store_data :: "heap \<Rightarrow> ptr \<Rightarrow> int32 \<Rightarrow> fault + heap" where
  "store_data h p d =
     (case deref h p of
        Inl e \<Rightarrow> Inl e
      | Inr n \<Rightarrow> Inr (h[the p := Some (n\<lparr>data := d\<rparr>)]))"

definition store_next :: "heap \<Rightarrow> ptr \<Rightarrow> ptr \<Rightarrow> fault + heap" where
  "store_next h p q =
     (case deref h p of
        Inl e \<Rightarrow> Inl e
      | Inr n \<Rightarrow> Inr (h[the p := Some (n\<lparr>next := q\<rparr>)]))"

definition delete_Node :: "heap \<Rightarrow> ptr \<Rightarrow> fault + heap" where
  "delete_Node h p =
     (case p of
        None \<Rightarrow> Inr h
      | Some a \<Rightarrow> (case lookup h a of None \<Rightarrow> Inl InvalidPointer | Some n \<Rightarrow> Inr (h[a := None])))"

section \<open>The list object and its operations\<close>

text \<open>
  Modelled from the spec: the fields of class \<^verbatim>\<open>LinkedList\<close>, declared in
  \<^verbatim>\<open>LinkedList.h\<close>, which is not among the sources: the pointer to the first node and
  the count of contained nodes, \<^verbatim>\<open>length\<close> (\<open>length'\<close> here). The record is the state
  an operation runs in: these two fields and the free store the nodes live in.
\<close>

record LinkedList =
  head :: ptr
  length' :: int32
  heap :: heap

definition LinkedList_ctor :: "LinkedList" where
  "LinkedList_ctor = \<lparr>head = None, length' = 0, heap = []\<rparr>"

definition InsertFront :: "int32 \<Rightarrow> LinkedList \<Rightarrow> fault + LinkedList" where
  "InsertFront d s =
     (let (node, h0) = new_Node (heap s) in
      case store_data h0 (Some node) d of Inl e \<Rightarrow> Inl e | Inr h1 \<Rightarrow>
      case store_next h1 (Some node) (head s) of Inl e \<Rightarrow> Inl e | Inr h2 \<Rightarrow>
      Inr (s\<lparr>heap := h2, head := Some node, length' := length' s + 1\<rparr>))"

text \<open>
  The loop \<^verbatim>\<open>while (current->next != nullptr) current = current->next;\<close> of
  \<^verbatim>\<open>InsertBack\<close>. It need not end (a cyclic store), so it is a partial function:
  \<open>None\<close> is a run that never returns.
\<close>

partial_function (option) InsertBack_loop :: "heap \<Rightarrow> ptr \<Rightarrow> (fault + ptr) option" where
  "InsertBack_loop h current =
     (case deref h current of
        Inl e \<Rightarrow> Some (Inl e)
      | Inr c \<Rightarrow>
          if next c \<noteq> None then InsertBack_loop h (next c) else Some (Inr current))"

declare InsertBack_loop.simps [code]

definition InsertBack :: "int32 \<Rightarrow> LinkedList \<Rightarrow> (fault + LinkedList) option" where
  "InsertBack d s =
     (let (node, h0) = new_Node (heap s) in
      case store_data h0 (Some node) d of Inl e \<Rightarrow> Some (Inl e) | Inr h1 \<Rightarrow>
      case store_next h1 (Some node) None of Inl e \<Rightarrow> Some (Inl e) | Inr h2 \<Rightarrow>
      if head s = None then
        Some (Inr (s\<lparr>heap := h2, head := Some node, length' := length' s + 1\<rparr>))
      else
        (case InsertBack_loop h2 (head s) of
           None \<Rightarrow> None
         | Some (Inl e) \<Rightarrow> Some (Inl e)
         | Some (Inr current) \<Rightarrow>
             (case store_next h2 current (Some node) of
                Inl e \<Rightarrow> Some (Inl e)
              | Inr h3 \<Rightarrow> Some (Inr (s\<lparr>heap := h3, length' := length' s + 1\<rparr>)))))"

text \<open>
  The loop \<^verbatim>\<open>for (int i = 0; i < index - 2; i++) current = current->next;\<close>, which
  \<^verbatim>\<open>InsertAt\<close> and \<^verbatim>\<open>Delete\<close> both contain. The comparison is the signed one.
\<close>

function for_loop :: "heap \<Rightarrow> int32 \<Rightarrow> int32 \<Rightarrow> ptr \<Rightarrow> fault + ptr" where
  "for_loop h i index current =
     (if sint i < sint (index - 2) then
        (case deref h current of
           Inl e \<Rightarrow> Inl e
         | Inr c \<Rightarrow> for_loop h (i + 1) index (next c))
      else Inr current)"
  by pat_completeness auto
termination
proof (relation "measure (\<lambda>(h, i, index, current). nat (sint (index - 2) - sint i))",
    goal_cases)
  case 1
  show ?case by simp
next
  case (2 h i index current c)
  have "sint (index - 2) < 2 ^ 31" using sint_lt [of "index - 2"] by simp
  moreover have "- (2 ^ 31) \<le> sint i" using sint_ge [of i] by simp
  ultimately have "- (2 ^ 31) \<le> sint i + 1" "sint i + 1 < 2 ^ 31" using 2(1) by auto
  then have "sint (i + 1) = sint i + 1"
    by (simp add: sint_word_ariths signed_take_bit_int_eq_self)
  with 2(1) show ?case by simp
qed

declare for_loop.simps [simp del]

definition InsertAt :: "int32 \<Rightarrow> int32 \<Rightarrow> LinkedList \<Rightarrow> fault + LinkedList" where
  "InsertAt d index s =
     (let (node, h0) = new_Node (heap s) in
      case store_data h0 (Some node) d of Inl e \<Rightarrow> Inl e | Inr h1 \<Rightarrow>
      case store_next h1 (Some node) None of Inl e \<Rightarrow> Inl e | Inr h2 \<Rightarrow>
      if index = 1 then
        (case store_next h2 (Some node) (head s) of
           Inl e \<Rightarrow> Inl e
         | Inr h3 \<Rightarrow> Inr (s\<lparr>heap := h3, head := Some node\<rparr>))
      else
        (case for_loop h2 0 index (head s) of Inl e \<Rightarrow> Inl e | Inr current \<Rightarrow>
         case deref h2 current of Inl e \<Rightarrow> Inl e | Inr c \<Rightarrow>
         case store_next h2 (Some node) (next c) of Inl e \<Rightarrow> Inl e | Inr h3 \<Rightarrow>
         case store_next h3 current (Some node) of Inl e \<Rightarrow> Inl e | Inr h4 \<Rightarrow>
         Inr (s\<lparr>heap := h4, length' := length' s + 1\<rparr>)))"

definition Delete :: "int32 \<Rightarrow> LinkedList \<Rightarrow> fault + LinkedList" where
  "Delete index s =
     (let current = head s in
      if index = 1 then
        (case deref (heap s) current of Inl e \<Rightarrow> Inl e | Inr c \<Rightarrow>
         case delete_Node (heap s) current of Inl e \<Rightarrow> Inl e | Inr h1 \<Rightarrow>
         Inr (s\<lparr>head := next c, heap := h1\<rparr>))
      else
        (case for_loop (heap s) 0 index current of Inl e \<Rightarrow> Inl e | Inr current \<Rightarrow>
         case deref (heap s) current of Inl e \<Rightarrow> Inl e | Inr c \<Rightarrow>
         let next_var = next c in
         case deref (heap s) next_var of Inl e \<Rightarrow> Inl e | Inr n \<Rightarrow>
         case store_next (heap s) current (next n) of Inl e \<Rightarrow> Inl e | Inr h1 \<Rightarrow>
         case delete_Node h1 next_var of Inl e \<Rightarrow> Inl e | Inr h2 \<Rightarrow>
         Inr (s\<lparr>heap := h2, length' := length' s - 1\<rparr>)))"

text \<open>
  The loop of \<^verbatim>\<open>Reverse\<close>, with the store and the variables \<^verbatim>\<open>previous\<close> and
  \<^verbatim>\<open>current\<close> as its state; it returns the store and \<^verbatim>\<open>previous\<close>.
\<close>

partial_function (option) Reverse_loop ::
    "heap \<Rightarrow> ptr \<Rightarrow> ptr \<Rightarrow> (fault + heap \<times> ptr) option" where
  "Reverse_loop h previous current =
     (if current \<noteq> None then
        (case deref h current of Inl e \<Rightarrow> Some (Inl e) | Inr c \<Rightarrow>
         case store_next h current previous of Inl e \<Rightarrow> Some (Inl e) | Inr h1 \<Rightarrow>
         Reverse_loop h1 current (next c))
      else Some (Inr (h, previous)))"

declare Reverse_loop.simps [code]

definition Reverse :: "LinkedList \<Rightarrow> (fault + LinkedList) option" where
  "Reverse s =
     (case Reverse_loop (heap s) None (head s) of
        None \<Rightarrow> None
      | Some (Inl e) \<Rightarrow> Some (Inl e)
      | Some (Inr (h1, previous)) \<Rightarrow> Some (Inr (s\<lparr>heap := h1, head := previous\<rparr>)))"

text \<open>
  Printing. The text written to \<^verbatim>\<open>std::cout\<close> is a string that each statement
  extends; \<open>fmt\<close> is the standard library's rendering of an \<^verbatim>\<open>int\<close>. Both functions
  return the state they leave and the stream.
\<close>

partial_function (option) StartRecursionPrint ::
    "(int32 \<Rightarrow> string) \<Rightarrow> heap \<Rightarrow> ptr \<Rightarrow> string \<Rightarrow> (fault + string) option" where
  "StartRecursionPrint fmt h head_arg cout =
     (if head_arg = None then Some (Inr cout)
      else
        (case deref h head_arg of
           Inl e \<Rightarrow> Some (Inl e)
         | Inr n \<Rightarrow> StartRecursionPrint fmt h (next n) (cout @ fmt (data n) @ '' '')))"

declare StartRecursionPrint.simps [code]

definition PrintRecursion ::
    "(int32 \<Rightarrow> string) \<Rightarrow> LinkedList \<Rightarrow> string \<Rightarrow> (fault + LinkedList \<times> string) option" where
  "PrintRecursion fmt s cout =
     (let current = head s in
      case StartRecursionPrint fmt (heap s) current cout of
        None \<Rightarrow> None
      | Some (Inl e) \<Rightarrow> Some (Inl e)
      | Some (Inr out) \<Rightarrow> Some (Inr (s, out)))"

partial_function (option) Print_loop ::
    "(int32 \<Rightarrow> string) \<Rightarrow> heap \<Rightarrow> ptr \<Rightarrow> string \<Rightarrow> (fault + string) option" where
  "Print_loop fmt h current cout =
     (if current \<noteq> None then
        (case deref h current of
           Inl e \<Rightarrow> Some (Inl e)
         | Inr c \<Rightarrow> Print_loop fmt h (next c) (cout @ fmt (data c) @ [CHR '' '']))
      else Some (Inr cout))"

declare Print_loop.simps [code]

definition Print ::
    "(int32 \<Rightarrow> string) \<Rightarrow> LinkedList \<Rightarrow> string \<Rightarrow> (fault + LinkedList \<times> string) option" where
  "Print fmt s cout =
     (let current = head s in
      case Print_loop fmt (heap s) current cout of
        None \<Rightarrow> None
      | Some (Inl e) \<Rightarrow> Some (Inl e)
      | Some (Inr out) \<Rightarrow> Some (Inr (s, out)))"

definition GetLength :: "LinkedList \<Rightarrow> int32" where
  "GetLength s = length' s"

section \<open>Sequences of operations\<close>

text \<open>
  A caller's sequence of calls, run from a given state. The run stops at the first call
  that faults or does not return.
\<close>

datatype op =
    OpInsertFront int32
  | OpInsertBack int32
  | OpInsertAt int32 int32
  | OpDelete int32
  | OpReverse

fun apply_op :: "op \<Rightarrow> LinkedList \<Rightarrow> (fault + LinkedList) option" where
  "apply_op (OpInsertFront v) s = Some (InsertFront v s)"
| "apply_op (OpInsertBack v) s = InsertBack v s"
| "apply_op (OpInsertAt v i) s = Some (InsertAt v i s)"
| "apply_op (OpDelete i) s = Some (Delete i s)"
| "apply_op OpReverse s = Reverse s"

fun run :: "op list \<Rightarrow> LinkedList \<Rightarrow> (fault + LinkedList) option" where
  "run [] s = Some (Inr s)"
| "run (x # xs) s =
     (case apply_op x s of
        None \<Rightarrow> None
      | Some (Inl e) \<Rightarrow> Some (Inl e)
      | Some (Inr s') \<Rightarrow> run xs s')"

text \<open>
  \<open>off_front xs n\<close>: started on a list of \<open>n\<close> nodes, every \<^verbatim>\<open>InsertAt\<close> and
  \<^verbatim>\<open>Delete\<close> of the sequence \<open>xs\<close> is called with an index in range and other than 1.
\<close>

fun off_front :: "op list \<Rightarrow> nat \<Rightarrow> bool" where
  "off_front [] n = True"
| "off_front (OpInsertFront v # xs) n = off_front xs (n + 1)"
| "off_front (OpInsertBack v # xs) n = off_front xs (n + 1)"
| "off_front (OpInsertAt v i # xs) n =
     (2 \<le> sint i \<and> sint i \<le> int n + 1 \<and> off_front xs (n + 1))"
| "off_front (OpDelete i # xs) n =
     (2 \<le> sint i \<and> sint i \<le> int n \<and> off_front xs (n - 1))"
| "off_front (OpReverse # xs) n = off_front xs n"

section \<open>Lists in the store\<close>

text \<open>
  \<open>seg h p ns q\<close>: following \<^verbatim>\<open>next\<close> links from \<open>p\<close> visits exactly the nodes
  \<open>ns\<close> (address and value of each, in order) and arrives at \<open>q\<close>.
  \<open>chain h p ns\<close>: the links from \<open>p\<close> end in \<^verbatim>\<open>nullptr\<close>; \<open>map snd ns\<close> is what
  a traversal from \<open>p\<close> yields.
\<close>

fun seg :: "heap \<Rightarrow> ptr \<Rightarrow> (nat \<times> int32) list \<Rightarrow> ptr \<Rightarrow> bool" where
  "seg h p [] q = (p = q)"
| "seg h p ((a, x) # ns) q =
     (p = Some a \<and>
      (case lookup h a of None \<Rightarrow> False | Some n \<Rightarrow> data n = x \<and> seg h (next n) ns q))"

definition chain :: "heap \<Rightarrow> ptr \<Rightarrow> (nat \<times> int32) list \<Rightarrow> bool" where
  "chain h p ns = seg h p ns None"

definition contents :: "(nat \<times> int32) list \<Rightarrow> int32 list" where
  "contents ns = map snd ns"

text \<open>
  What a traversal is to write for the values \<open>xs\<close>: each value in order, first to
  last, rendered by \<open>fmt\<close> and followed by one space.
\<close>

definition rendered :: "(int32 \<Rightarrow> string) \<Rightarrow> int32 list \<Rightarrow> string" where
  "rendered fmt xs = concat (map (\<lambda>x. fmt x @ [CHR '' '']) xs)"

section \<open>Concrete inputs\<close>

text \<open>
  The list 1, 2, 3 as the calls \<^verbatim>\<open>InsertFront(1)\<close>, \<^verbatim>\<open>InsertBack(2)\<close>,
  \<^verbatim>\<open>InsertBack(3)\<close> leave it, starting from the constructor's state.
\<close>

definition list_123 :: "LinkedList" where
  "list_123 =
     \<lparr>head = Some 0, length' = 3,
      heap = [Some \<lparr>data = 1, next = Some 1\<rparr>,
              Some \<lparr>data = 2, next = Some 2\<rparr>,
              Some \<lparr>data = 3, next = None\<rparr>]\<rparr>"

text \<open>The list with the single value 1, as \<^verbatim>\<open>InsertFront(1)\<close> leaves it.\<close>

definition list_1 :: "LinkedList" where
  "list_1 = \<lparr>head = Some 0, length' = 1, heap = [Some \<lparr>data = 1, next = None\<rparr>]\<rparr>"

text \<open>The list 1, 9, 2, 3 as \<^verbatim>\<open>InsertAt(9, 2)\<close> leaves it when run on the list 1, 2, 3.\<close>

definition list_1923 :: "LinkedList" where
  "list_1923 =
     \<lparr>head = Some 0, length' = 4,
      heap = [Some \<lparr>data = 1, next = Some 3\<rparr>,
              Some \<lparr>data = 2, next = Some 2\<rparr>,
              Some \<lparr>data = 3, next = None\<rparr>,
              Some \<lparr>data = 9, next = Some 1\<rparr>]\<rparr>"

text \<open>Decimal rendering of an integer, for running the print functions.\<close>

function decimal_nat :: "nat \<Rightarrow> string" where
  "decimal_nat n =
     (if n < 10 then [''0123456789'' ! n]
      else decimal_nat (n div 10) @ [''0123456789'' ! (n mod 10)])"
  by pat_completeness auto
termination
  by (relation "measure id") auto

declare decimal_nat.simps [simp del]

definition decimal :: "int32 \<Rightarrow> string" where
  "decimal i =
     (if sint i < 0 then CHR ''-'' # decimal_nat (nat (- sint i)) else decimal_nat (nat (sint i)))"

section \<open>Facts about the store and about segments\<close>

lemma lookup_Some_lt: "lookup h a = Some n \<Longrightarrow> a < length h"
  by (simp add: lookup_def split: if_splits)

lemma lookup_append: "lookup h a = Some n \<Longrightarrow> lookup (h @ cs) a = Some n"
  by (simp add: lookup_def nth_append split: if_splits)

lemma lookup_fresh: "lookup (h @ [c]) (length h) = c"
  by (simp add: lookup_def)

lemma lookup_update: "lookup (h[a := v]) b = (if b = a \<and> a < length h then v else lookup h b)"
  by (auto simp: lookup_def)

lemma seg_frame:
  "\<forall>a \<in> fst ` set ns. lookup h' a = lookup h a \<Longrightarrow> seg h' p ns q = seg h p ns q"
  by (induction ns arbitrary: p) (auto split: option.splits)

lemma seg_append: "seg h p (ns @ ms) q = (\<exists>r. seg h p ns r \<and> seg h r ms q)"
  by (induction ns arbitrary: p) (auto split: option.splits)

lemma seg_addr_lt: "seg h p ns q \<Longrightarrow> (a, x) \<in> set ns \<Longrightarrow> a < length h"
  by (induction ns arbitrary: p) (auto split: option.splits dest: lookup_Some_lt)

lemma seg_extend: "seg h p ns q \<Longrightarrow> seg (h @ cs) p ns q"
  by (induction ns arbitrary: p) (auto split: option.splits simp: lookup_append)

lemma seg_update_other: "a \<notin> fst ` set ns \<Longrightarrow> seg (h[a := v]) p ns q = seg h p ns q"
  by (rule seg_frame) (auto simp: lookup_update)

lemma seg_fresh_notin: "seg h p ns q \<Longrightarrow> length h \<notin> fst ` set ns"
  by (auto dest: seg_addr_lt)

text \<open>The store determines the list that starts at a pointer.\<close>

lemma seg_functional: "seg h p ns None \<Longrightarrow> seg h p ms None \<Longrightarrow> ns = ms"
proof (induction ns arbitrary: p ms)
  case Nil
  then show ?case by (cases ms) auto
next
  case (Cons n ns)
  then show ?case by (cases ms; cases n) (auto split: option.splits)
qed

text \<open>A list that ends in \<^verbatim>\<open>nullptr\<close> visits no node twice.\<close>

lemma seg_head_notin:
  assumes "seg h (Some a) ((a, x) # ns) None"
  shows "a \<notin> fst ` set ns"
proof
  assume "a \<in> fst ` set ns"
  then obtain y where "(a, y) \<in> set ns" by auto
  then obtain bs cs where ns: "ns = bs @ (a, y) # cs"
    by (auto simp: in_set_conv_decomp)
  from assms obtain n :: Node where n: "lookup h a = Some n" "seg h (next n) ns None"
    by (auto split: option.splits)
  from n(2) ns obtain r where "seg h r ((a, y) # cs) None"
    by (auto simp: seg_append)
  then have "seg h (Some a) ((a, y) # cs) None" by auto
  with assms have "(a, x) # ns = (a, y) # cs" by (rule seg_functional)
  with ns show False by auto
qed

lemma seg_distinct: "seg h p ns None \<Longrightarrow> distinct (map fst ns)"
proof (induction ns arbitrary: p)
  case Nil
  then show ?case by simp
next
  case (Cons n ns)
  obtain a x where [simp]: "n = (a, x)" by (cases n)
  from Cons.prems have p: "p = Some a" by simp
  with Cons.prems have "seg h (Some a) ((a, x) # ns) None" by simp
  then have "a \<notin> fst ` set ns" by (rule seg_head_notin)
  moreover from Cons.prems obtain c :: Node where "seg h (next c) ns None"
    by (auto split: option.splits)
  then have "distinct (map fst ns)" by (rule Cons.IH)
  ultimately show ?case by simp
qed

section \<open>InsertFront\<close>

lemma InsertFront_chain:
  assumes "chain (heap s) (head s) ns"
  shows "\<exists>s'. InsertFront v s = Inr s' \<and> length' s' = length' s + 1 \<and>
           chain (heap s') (head s') ((length (heap s), v) # ns)"
proof -
  let ?h = "heap s @ [Some \<lparr>data = v, next = head s\<rparr>]"
  have run: "InsertFront v s =
      Inr (s\<lparr>heap := ?h, head := Some (length (heap s)), length' := length' s + 1\<rparr>)"
    by (simp add: InsertFront_def new_Node_def store_data_def store_next_def deref_def
        lookup_def)
  from assms have "seg ?h (head s) ns None"
    unfolding chain_def by (rule seg_extend)
  then have "chain ?h (Some (length (heap s))) ((length (heap s), v) # ns)"
    by (simp add: chain_def lookup_fresh)
  with run show ?thesis by simp
qed

text \<open>
  Claim C8. On every list, the empty one included, \<^verbatim>\<open>InsertFront(v)\<close> returns without a
  fault, the counter grows by exactly one, and the list then starts with a new node
  holding \<open>v\<close>, followed by the nodes it had before, in their order and with their
  values: a traversal yields \<open>v\<close> first and then the prior sequence.
\<close>

theorem InsertFront_correct:
  assumes "chain (heap s) (head s) ns"
  shows "\<exists>s'. InsertFront v s = Inr s' \<and> GetLength s' = GetLength s + 1 \<and>
           chain (heap s') (head s') ((length (heap s), v) # ns) \<and>
           contents ((length (heap s), v) # ns) = v # contents ns"
  using InsertFront_chain [OF assms, of v] by (simp add: GetLength_def contents_def)

theorem InsertFront_correct_witness:
  "chain (heap list_123) (head list_123) [(0, 1), (1, 2), (2, 3)] \<and>
   (\<exists>s'. InsertFront 7 list_123 = Inr s' \<and> GetLength s' = GetLength list_123 + 1 \<and>
      chain (heap s') (head s') [(3, 7), (0, 1), (1, 2), (2, 3)] \<and>
      contents [(3, 7), (0, 1), (1, 2), (2, 3)] = 7 # contents [(0, 1), (1, 2), (2, 3)])"
proof -
  have h: "chain (heap list_123) (head list_123) [(0, 1), (1, 2), (2, 3)]"
    by (simp add: chain_def list_123_def lookup_def)
  have "length (heap list_123) = 3"
    by (simp add: list_123_def)
  with InsertFront_correct [OF h, of 7] h show ?thesis by simp
qed

section \<open>Printing\<close>

lemma Print_loop_seg:
  "seg h p ns None \<Longrightarrow>
    Print_loop fmt h p cout = Some (Inr (cout @ rendered fmt (contents ns)))"
proof (induction ns arbitrary: p cout)
  case Nil
  then show ?case
    by (subst Print_loop.simps) (simp add: rendered_def contents_def)
next
  case (Cons n ns)
  obtain a x where n: "n = (a, x)" by (cases n)
  with Cons.prems obtain c :: Node where c: "p = Some a" "lookup h a = Some c" "data c = x"
      "seg h (next c) ns None"
    by (auto split: option.splits)
  from Cons.IH [OF c(4)] c(1-3) n show ?case
    by (subst Print_loop.simps) (simp add: deref_def rendered_def contents_def)
qed

lemma StartRecursionPrint_seg:
  "seg h p ns None \<Longrightarrow>
    StartRecursionPrint fmt h p cout = Some (Inr (cout @ rendered fmt (contents ns)))"
proof (induction ns arbitrary: p cout)
  case Nil
  then show ?case
    by (subst StartRecursionPrint.simps) (simp add: rendered_def contents_def)
next
  case (Cons n ns)
  obtain a x where n: "n = (a, x)" by (cases n)
  with Cons.prems obtain c :: Node where c: "p = Some a" "lookup h a = Some c" "data c = x"
      "seg h (next c) ns None"
    by (auto split: option.splits)
  from Cons.IH [OF c(4)] c(1-3) n show ?case
    by (subst StartRecursionPrint.simps) (simp add: deref_def rendered_def contents_def)
qed

text \<open>
  Claim C9. On every list, \<^verbatim>\<open>Print\<close> and \<^verbatim>\<open>PrintRecursion\<close> both return, without a
  fault, and append the same text to the stream: the values of the list in order from
  first to last, each followed by a space. Both leave the state (fields and store) as it
  was.
\<close>

theorem Print_PrintRecursion_agree:
  assumes "chain (heap s) (head s) ns"
  shows "Print fmt s cout = Some (Inr (s, cout @ rendered fmt (contents ns))) \<and>
         PrintRecursion fmt s cout = Some (Inr (s, cout @ rendered fmt (contents ns)))"
  using assms
  by (simp add: Print_def PrintRecursion_def chain_def Print_loop_seg StartRecursionPrint_seg)

theorem Print_PrintRecursion_agree_witness:
  "chain (heap list_123) (head list_123) [(0, 1), (1, 2), (2, 3)] \<and>
   Print decimal list_123 [] = Some (Inr (list_123, ''1 2 3 '')) \<and>
   PrintRecursion decimal list_123 [] = Some (Inr (list_123, ''1 2 3 ''))"
proof -
  have h: "chain (heap list_123) (head list_123) [(0, 1), (1, 2), (2, 3)]"
    by (simp add: chain_def list_123_def lookup_def)
  have "rendered decimal (contents [(0, 1), (1, 2), (2, 3)]) = ''1 2 3 ''"
    by (simp add: rendered_def contents_def decimal_def decimal_nat.simps)
  with Print_PrintRecursion_agree [OF h, of decimal "[]"] h show ?thesis by simp
qed

section \<open>Reverse\<close>

text \<open>
  The loop, started on a list \<open>ns\<close> with the list \<open>ps\<close> already turned round behind
  it, returns with \<open>ns\<close> reversed in front of \<open>ps\<close>. It writes \<^verbatim>\<open>next\<close> fields only.
\<close>

lemma Reverse_loop_seg:
  "seg h current ns None \<Longrightarrow> seg h previous ps None \<Longrightarrow>
   fst ` set ns \<inter> fst ` set ps = {} \<Longrightarrow>
   \<exists>h' p'. Reverse_loop h previous current = Some (Inr (h', p')) \<and>
     seg h' p' (rev ns @ ps) None \<and>
     map (map_option data) h' = map (map_option data) h"
proof (induction ns arbitrary: h current previous ps)
  case Nil
  then show ?case
    by (subst Reverse_loop.simps) simp
next
  case (Cons n ns)
  obtain a x where n: "n = (a, x)" by (cases n)
  with Cons.prems(1) obtain c :: Node where c: "current = Some a" "lookup h a = Some c"
      "data c = x" "seg h (next c) ns None"
    by (auto split: option.splits)
  let ?h1 = "h[a := Some (c\<lparr>next := previous\<rparr>)]"
  from Cons.prems(1) n c(1) have "seg h (Some a) ((a, x) # ns) None" by simp
  then have "a \<notin> fst ` set ns" by (rule seg_head_notin)
  moreover from Cons.prems(3) n have "a \<notin> fst ` set ps" by auto
  moreover from c(2) have lt: "a < length h" by (rule lookup_Some_lt)
  ultimately have s1: "seg ?h1 (next c) ns None" and s2: "seg ?h1 (Some a) ((a, x) # ps) None"
    using c Cons.prems(2) by (simp_all add: seg_update_other lookup_update)
  from Cons.prems(3) n \<open>a \<notin> fst ` set ns\<close> have "fst ` set ns \<inter> fst ` set ((a, x) # ps) = {}"
    by auto
  from Cons.IH [OF s1 s2 this] obtain h' p' where
    r: "Reverse_loop ?h1 (Some a) (next c) = Some (Inr (h', p'))"
       "seg h' p' (rev ns @ (a, x) # ps) None"
       "map (map_option data) h' = map (map_option data) ?h1"
    by blast
  from c(2) lt have "h ! a = Some c" by (simp add: lookup_def)
  then have "map (map_option data) ?h1 = map (map_option data) h"
    by (simp add: map_update) (metis list_update_id map_update option.simps(9))
  with r c n show ?case
    by (subst Reverse_loop.simps) (simp add: deref_def store_next_def)
qed

lemma Reverse_chain:
  assumes "chain (heap s) (head s) ns"
  shows "\<exists>s'. Reverse s = Some (Inr s') \<and> length' s' = length' s \<and>
           chain (heap s') (head s') (rev ns) \<and>
           map (map_option data) (heap s') = map (map_option data) (heap s)"
proof -
  from assms have "seg (heap s) (head s) ns None" by (simp add: chain_def)
  moreover have "seg (heap s) None [] None" by simp
  ultimately obtain h' p' where "Reverse_loop (heap s) None (head s) = Some (Inr (h', p'))"
    "seg h' p' (rev ns @ []) None" "map (map_option data) h' = map (map_option data) (heap s)"
    using Reverse_loop_seg [of "heap s" "head s" ns None "[]"] by auto
  then show ?thesis by (simp add: Reverse_def chain_def)
qed

lemma Reverse_empty: "head s = None \<Longrightarrow> Reverse s = Some (Inr s)"
  by (simp add: Reverse_def Reverse_loop.simps)

text \<open>
  Claim C7. On every list, \<^verbatim>\<open>Reverse\<close> returns without a fault and leaves the nodes in
  reverse order; a second \<^verbatim>\<open>Reverse\<close> leaves the same nodes in the original order, so
  a traversal yields the original sequence again. On the empty list \<^verbatim>\<open>Reverse\<close>
  changes nothing.
\<close>

theorem Reverse_involution:
  assumes "chain (heap s) (head s) ns"
  shows "\<exists>s' s''. Reverse s = Some (Inr s') \<and> chain (heap s') (head s') (rev ns) \<and>
           Reverse s' = Some (Inr s'') \<and> chain (heap s'') (head s'') ns \<and>
           (ns = [] \<longrightarrow> s' = s)"
proof -
  from Reverse_chain [OF assms] obtain s' where
    1: "Reverse s = Some (Inr s')" "chain (heap s') (head s') (rev ns)"
    by blast
  from Reverse_chain [OF 1(2)] obtain s'' where
    2: "Reverse s' = Some (Inr s'')" "chain (heap s'') (head s'') ns"
    by auto
  have "s' = s" if "ns = []"
  proof -
    from that assms have "head s = None" by (simp add: chain_def)
    then have "Reverse s = Some (Inr s)" by (rule Reverse_empty)
    with 1(1) show ?thesis by simp
  qed
  with 1 2 show ?thesis by blast
qed

theorem Reverse_involution_witness:
  "chain (heap list_123) (head list_123) [(0, 1), (1, 2), (2, 3)] \<and>
   (\<exists>s' s''. Reverse list_123 = Some (Inr s') \<and>
      chain (heap s') (head s') [(2, 3), (1, 2), (0, 1)] \<and>
      Reverse s' = Some (Inr s'') \<and>
      chain (heap s'') (head s'') [(0, 1), (1, 2), (2, 3)]) \<and>
   chain (heap LinkedList_ctor) (head LinkedList_ctor) [] \<and>
   Reverse LinkedList_ctor = Some (Inr LinkedList_ctor)"
proof -
  have h: "chain (heap list_123) (head list_123) [(0, 1), (1, 2), (2, 3)]"
    by (simp add: chain_def list_123_def lookup_def)
  have e: "chain (heap LinkedList_ctor) (head LinkedList_ctor) []"
    by (simp add: chain_def LinkedList_ctor_def)
  from Reverse_involution [OF e] have "Reverse LinkedList_ctor = Some (Inr LinkedList_ctor)"
    by auto
  with Reverse_involution [OF h] h e show ?thesis by simp
qed

text \<open>
  Claim C10. On every list, \<^verbatim>\<open>Reverse\<close> leaves the counter as it was, and the list it
  leaves holds the same multiset of values. In the store every cell keeps its value
  and no cell is allocated or released: only \<^verbatim>\<open>next\<close> links differ.
\<close>

theorem Reverse_frame:
  assumes "chain (heap s) (head s) ns"
  shows "\<exists>s' ns'. Reverse s = Some (Inr s') \<and> GetLength s' = GetLength s \<and>
           chain (heap s') (head s') ns' \<and>
           mset (contents ns') = mset (contents ns) \<and>
           map (map_option data) (heap s') = map (map_option data) (heap s)"
proof -
  from Reverse_chain [OF assms] obtain s' where
    "Reverse s = Some (Inr s')" "length' s' = length' s"
    "chain (heap s') (head s') (rev ns)"
    "map (map_option data) (heap s') = map (map_option data) (heap s)"
    by blast
  moreover have "mset (contents (rev ns)) = mset (contents ns)"
    by (simp add: contents_def rev_map [symmetric])
  ultimately show ?thesis by (auto simp: GetLength_def)
qed

theorem Reverse_frame_witness:
  "chain (heap list_123) (head list_123) [(0, 1), (1, 2), (2, 3)] \<and>
   (\<exists>s' ns'. Reverse list_123 = Some (Inr s') \<and> GetLength s' = 3 \<and>
      chain (heap s') (head s') ns' \<and>
      mset (contents ns') = {#1, 2, 3#} \<and>
      map (map_option data) (heap s') = [Some 1, Some 2, Some 3])"
proof -
  have h: "chain (heap list_123) (head list_123) [(0, 1), (1, 2), (2, 3)]"
    by (simp add: chain_def list_123_def lookup_def)
  have "GetLength list_123 = 3" "map (map_option data) (heap list_123) = [Some 1, Some 2, Some 3]"
    "mset (contents [(0, 1), (1, 2), (2, 3)]) = {#1, 2, 3#}"
    by (simp_all add: GetLength_def list_123_def contents_def)
  with Reverse_frame [OF h] h show ?thesis by simp
qed

section \<open>The traversal loop of InsertAt and Delete\<close>

lemma sint_succ:
  fixes i j :: int32
  assumes "sint i < sint j"
  shows "sint (i + 1) = sint i + 1"
proof -
  have "sint j < 2 ^ 31" using sint_lt [of j] by simp
  moreover have "- (2 ^ 31) \<le> sint i" using sint_ge [of i] by simp
  ultimately have "- (2 ^ 31) \<le> sint i + 1" "sint i + 1 < 2 ^ 31" using assms by auto
  then show ?thesis
    by (simp add: sint_word_ariths signed_take_bit_int_eq_self)
qed

lemma sint_minus_2:
  fixes i :: int32
  assumes "- (2 ^ 31) + 2 \<le> sint i"
  shows "sint (i - 2) = sint i - 2"
proof -
  have "sint i < 2 ^ 31" using sint_lt [of i] by simp
  with assms have "- (2 ^ 31) \<le> sint i - 2" "sint i - 2 < 2 ^ 31" by auto
  then show ?thesis
    by (simp add: sint_word_ariths signed_take_bit_int_eq_self)
qed

text \<open>
  The loop follows exactly \<open>sint (index - 2) - sint i\<close> links when that many nodes are
  there, none when \<open>sint (index - 2) \<le> sint i\<close>, and reads through \<^verbatim>\<open>nullptr\<close>
  when the list is shorter.
\<close>

lemma for_loop_seg:
  "seg h p pre q \<Longrightarrow> int (length pre) = sint (index - 2) - sint i \<Longrightarrow>
    for_loop h i index p = Inr q"
proof (induction pre arbitrary: p i)
  case Nil
  then show ?case by (subst for_loop.simps) simp
next
  case (Cons n pre)
  obtain a x where n: "n = (a, x)" by (cases n)
  with Cons.prems(1) obtain c :: Node where c: "p = Some a" "lookup h a = Some c"
      "seg h (next c) pre q"
    by (auto split: option.splits)
  from Cons.prems(2) have lt: "sint i < sint (index - 2)" by simp
  then have "sint (i + 1) = sint i + 1" by (rule sint_succ)
  with Cons.prems(2) have "int (length pre) = sint (index - 2) - sint (i + 1)" by simp
  from Cons.IH [OF c(3) this] lt c(1,2) show ?case
    by (subst for_loop.simps) (simp add: deref_def)
qed

lemma for_loop_skip: "sint (index - 2) \<le> sint i \<Longrightarrow> for_loop h i index p = Inr p"
  by (subst for_loop.simps) simp

lemma for_loop_fault:
  "seg h p ns None \<Longrightarrow> int (length ns) < sint (index - 2) - sint i \<Longrightarrow>
    for_loop h i index p = Inl NullDereference"
proof (induction ns arbitrary: p i)
  case Nil
  then show ?case by (subst for_loop.simps) (simp add: deref_def)
next
  case (Cons n ns)
  obtain a x where n: "n = (a, x)" by (cases n)
  with Cons.prems(1) obtain c :: Node where c: "p = Some a" "lookup h a = Some c"
      "seg h (next c) ns None"
    by (auto split: option.splits)
  from Cons.prems(2) have lt: "sint i < sint (index - 2)" by simp
  then have "sint (i + 1) = sint i + 1" by (rule sint_succ)
  with Cons.prems(2) have "int (length ns) < sint (index - 2) - sint (i + 1)" by simp
  from Cons.IH [OF c(3) this] lt c(1,2) show ?case
    by (subst for_loop.simps) (simp add: deref_def)
qed

section \<open>InsertAt\<close>

lemma seg_spliced:
  "seg h p ns q \<Longrightarrow> a \<notin> fst ` set ns \<Longrightarrow> seg ((h @ [v])[a := w]) p ns q"
  by (simp add: seg_update_other seg_extend)

lemma InsertAt_splice:
  assumes ch: "chain (heap s) (head s) (pre @ (a, x) # post)"
    and ix: "int (length pre) = sint (index - 2)"
  shows "\<exists>s'. InsertAt d index s = Inr s' \<and> length' s' = length' s + 1 \<and>
           chain (heap s') (head s') (pre @ (a, x) # (length (heap s), d) # post)"
proof -
  let ?h = "heap s" and ?node = "length (heap s)"
  let ?h2 = "heap s @ [Some \<lparr>data = d, next = None\<rparr>]"
  from ch obtain c :: Node where pre: "seg ?h (head s) pre (Some a)"
    and c: "lookup ?h a = Some c" "data c = x" and post: "seg ?h (next c) post None"
    by (auto simp: chain_def seg_append split: option.splits)
  let ?h4 = "(?h @ [Some \<lparr>data = d, next = next c\<rparr>])[a := Some (c\<lparr>next := Some ?node\<rparr>)]"
  from c(1) have lt: "a < ?node" by (rule lookup_Some_lt)
  from ch have "distinct (map fst (pre @ (a, x) # post))"
    unfolding chain_def by (rule seg_distinct)
  then have na: "a \<notin> fst ` set pre" "a \<notin> fst ` set post" by auto
  from ix have ne: "index \<noteq> 1" by auto
  from pre have "seg ?h2 (head s) pre (Some a)" by (rule seg_extend)
  then have loop: "for_loop ?h2 0 index (head s) = Inr (Some a)"
    using ix by (intro for_loop_seg) simp_all
  from c(1) have c2: "lookup ?h2 a = Some c" by (rule lookup_append)
  from c(1) lt have c3: "lookup (?h2[?node := Some \<lparr>data = d, next = next c\<rparr>]) a = Some c"
    by (simp add: lookup_update lookup_append)
  have run: "InsertAt d index s = Inr (s\<lparr>heap := ?h4, length' := length' s + 1\<rparr>)"
    using ne loop c2 c3
    by (simp add: InsertAt_def new_Node_def store_data_def store_next_def deref_def
        lookup_fresh)
  have "seg ?h4 (head s) pre (Some a)"
    using pre na(1) by (rule seg_spliced)
  moreover have "seg ?h4 (next c) post None"
    using post na(2) by (rule seg_spliced)
  moreover have "lookup ?h4 a = Some (c\<lparr>next := Some ?node\<rparr>)"
    using lt by (simp add: lookup_update)
  moreover have "lookup ?h4 ?node = Some \<lparr>data = d, next = next c\<rparr>"
    using lt by (simp add: lookup_update lookup_fresh)
  ultimately have "chain ?h4 (head s) (pre @ (a, x) # (?node, d) # post)"
    using c(2) by (auto simp: chain_def seg_append)
  with run show ?thesis by simp
qed

lemma InsertAt_front:
  assumes "chain (heap s) (head s) ns"
  shows "\<exists>s'. InsertAt d 1 s = Inr s' \<and> length' s' = length' s \<and>
           chain (heap s') (head s') ((length (heap s), d) # ns)"
proof -
  let ?h = "heap s @ [Some \<lparr>data = d, next = head s\<rparr>]"
  have run: "InsertAt d 1 s = Inr (s\<lparr>heap := ?h, head := Some (length (heap s))\<rparr>)"
    by (simp add: InsertAt_def new_Node_def store_data_def store_next_def deref_def
        lookup_def)
  from assms have "seg ?h (head s) ns None"
    unfolding chain_def by (rule seg_extend)
  then have "chain ?h (Some (length (heap s))) ((length (heap s), d) # ns)"
    by (simp add: chain_def lookup_fresh)
  with run show ?thesis by simp
qed

lemma InsertAt_inner:
  assumes "chain (heap s) (head s) ns" and "2 \<le> sint i" and "sint i \<le> int (length ns) + 1"
  shows "\<exists>s'. InsertAt v i s = Inr s' \<and> length' s' = length' s + 1 \<and>
           chain (heap s') (head s')
             (take (nat (sint i - 1)) ns @ (length (heap s), v) # drop (nat (sint i - 1)) ns)"
proof -
  define k where "k = nat (sint i - 2)"
  from assms(2) have i2: "sint (i - 2) = sint i - 2" by (intro sint_minus_2) simp
  from k_def assms(2,3) have k: "k < length ns" "int k = sint i - 2" "nat (sint i - 1) = Suc k"
    by auto
  obtain a x where ax: "ns ! k = (a, x)" by (cases "ns ! k")
  with k(1) have "ns = take k ns @ (a, x) # drop (Suc k) ns"
    using id_take_nth_drop [of k ns] by simp
  with assms(1) have "chain (heap s) (head s) (take k ns @ (a, x) # drop (Suc k) ns)"
    by simp
  moreover from k(1,2) i2 have "int (length (take k ns)) = sint (i - 2)" by simp
  ultimately obtain s' where "InsertAt v i s = Inr s'" "length' s' = length' s + 1"
    "chain (heap s') (head s')
       (take k ns @ (a, x) # (length (heap s), v) # drop (Suc k) ns)"
    using InsertAt_splice by blast
  moreover from k(1) ax have "take (Suc k) ns = take k ns @ [(a, x)]"
    by (simp add: take_Suc_conv_app_nth)
  ultimately show ?thesis using k(3) by auto
qed

text \<open>
  Claim C5. On a list of \<open>n\<close> nodes and for an index \<open>i\<close> with \<open>1 \<le> i \<le> n + 1\<close>,
  \<^verbatim>\<open>InsertAt(v, i)\<close> returns without a fault and leaves the first \<open>i - 1\<close> nodes, then
  a new node holding \<open>v\<close>, then the remaining nodes: a traversal yields the prior
  sequence with \<open>v\<close> at position \<open>i\<close> (counted from 1).
\<close>

theorem InsertAt_position:
  assumes "chain (heap s) (head s) ns" and "1 \<le> sint i" and "sint i \<le> int (length ns) + 1"
  shows "\<exists>s'. InsertAt v i s = Inr s' \<and>
           chain (heap s') (head s')
             (take (nat (sint i - 1)) ns @ (length (heap s), v) # drop (nat (sint i - 1)) ns) \<and>
           contents
             (take (nat (sint i - 1)) ns @ (length (heap s), v) # drop (nat (sint i - 1)) ns) =
             take (nat (sint i - 1)) (contents ns) @ v # drop (nat (sint i - 1)) (contents ns)"
proof -
  have c: "contents (take k ns @ (length (heap s), v) # drop k ns) =
      take k (contents ns) @ v # drop k (contents ns)" for k
    by (simp add: contents_def take_map drop_map)
  show ?thesis
  proof (cases "i = 1")
    case True
    with InsertAt_front [OF assms(1), of v] c [of 0] show ?thesis by auto
  next
    case False
    then have "sint i \<noteq> 1" using signed_word_eqI [of i 1] by auto
    with assms(2) have "2 \<le> sint i" by simp
    from InsertAt_inner [OF assms(1) this assms(3), of v] c show ?thesis by auto
  qed
qed

theorem InsertAt_position_witness:
  "chain (heap list_123) (head list_123) [(0, 1), (1, 2), (2, 3)] \<and>
   1 \<le> sint (2 :: int32) \<and>
   sint (2 :: int32) \<le> int (length [(0 :: nat, 1 :: int32), (1, 2), (2, 3)]) + 1 \<and>
   (\<exists>s'. InsertAt 9 2 list_123 = Inr s' \<and>
      chain (heap s') (head s') [(0, 1), (3, 9), (1, 2), (2, 3)] \<and>
      contents [(0, 1), (3, 9), (1, 2), (2, 3)] = [1, 9, 2, 3])"
proof -
  have h: "chain (heap list_123) (head list_123) [(0, 1), (1, 2), (2, 3)]"
    by (simp add: chain_def list_123_def lookup_def)
  have "length (heap list_123) = 3"
    by (simp add: list_123_def)
  with InsertAt_position [OF h, of 2 9] h show ?thesis
    by (simp add: contents_def)
qed

text \<open>
  Claim C3. On every list, \<^verbatim>\<open>InsertAt(v, 1)\<close> puts a new node holding \<open>v\<close> in front
  and leaves the counter as it was; \<^verbatim>\<open>InsertAt(v, i)\<close> with \<open>2 \<le> i \<le> n + 1\<close>, for
  \<open>n\<close> the number of nodes of the list, adds exactly one to the counter. The code
  never reads the counter: whether an index is valid depends on the nodes that are
  there, and \<open>n\<close> is the counter's value whenever the counter is in step with them.
\<close>

theorem InsertAt_length:
  assumes "chain (heap s) (head s) ns"
  shows "(\<exists>s'. InsertAt v 1 s = Inr s' \<and> GetLength s' = GetLength s \<and>
            chain (heap s') (head s') ((length (heap s), v) # ns)) \<and>
         (\<forall>i. 2 \<le> sint i \<and> sint i \<le> int (length ns) + 1 \<longrightarrow>
            (\<exists>s'. InsertAt v i s = Inr s' \<and> GetLength s' = GetLength s + 1))"
proof (intro conjI allI impI)
  from InsertAt_front [OF assms, of v]
  show "\<exists>s'. InsertAt v 1 s = Inr s' \<and> GetLength s' = GetLength s \<and>
            chain (heap s') (head s') ((length (heap s), v) # ns)"
    by (simp add: GetLength_def)
next
  fix i :: int32
  assume "2 \<le> sint i \<and> sint i \<le> int (length ns) + 1"
  with InsertAt_inner [OF assms, of i v]
  show "\<exists>s'. InsertAt v i s = Inr s' \<and> GetLength s' = GetLength s + 1"
    by (auto simp: GetLength_def)
qed

theorem InsertAt_length_witness:
  "chain (heap list_123) (head list_123) [(0, 1), (1, 2), (2, 3)] \<and>
   (\<exists>s'. InsertAt 9 1 list_123 = Inr s' \<and> GetLength s' = 3 \<and>
      chain (heap s') (head s') [(3, 9), (0, 1), (1, 2), (2, 3)]) \<and>
   2 \<le> sint (4 :: int32) \<and>
   sint (4 :: int32) \<le> int (length [(0 :: nat, 1 :: int32), (1, 2), (2, 3)]) + 1 \<and>
   (\<exists>s'. InsertAt 9 4 list_123 = Inr s' \<and> GetLength s' = 4)"
proof -
  have h: "chain (heap list_123) (head list_123) [(0, 1), (1, 2), (2, 3)]"
    by (simp add: chain_def list_123_def lookup_def)
  have "length (heap list_123) = 3" "GetLength list_123 = 3"
    by (simp_all add: list_123_def GetLength_def)
  with InsertAt_length [OF h, of 9] h show ?thesis
    by simp
qed

section \<open>Delete\<close>

lemma Delete_front:
  assumes "chain (heap s) (head s) ((a, x) # ns)"
  shows "\<exists>s'. Delete 1 s = Inr s' \<and> length' s' = length' s \<and>
           chain (heap s') (head s') ns"
proof -
  from assms obtain c :: Node where c: "head s = Some a" "lookup (heap s) a = Some c"
      "seg (heap s) (next c) ns None"
    by (auto simp: chain_def split: option.splits)
  from assms c(1) have "a \<notin> fst ` set ns"
    by (auto simp: chain_def intro!: seg_head_notin)
  with c(3) have "seg ((heap s)[a := None]) (next c) ns None"
    by (simp add: seg_update_other)
  moreover from c(1,2) have "Delete 1 s = Inr (s\<lparr>head := next c, heap := (heap s)[a := None]\<rparr>)"
    by (simp add: Delete_def deref_def delete_Node_def)
  ultimately show ?thesis by (simp add: chain_def)
qed

lemma Delete_unlink:
  assumes ch: "chain (heap s) (head s) (pre @ (a, x) # (b, y) # post)"
    and ix: "int (length pre) = sint (index - 2)"
  shows "\<exists>s'. Delete index s = Inr s' \<and> length' s' = length' s - 1 \<and>
           chain (heap s') (head s') (pre @ (a, x) # post)"
proof -
  let ?h = "heap s"
  from ch obtain c n :: Node where pre: "seg ?h (head s) pre (Some a)"
    and c: "lookup ?h a = Some c" "data c = x" "next c = Some b"
    and n: "lookup ?h b = Some n" and post: "seg ?h (next n) post None"
    by (auto simp: chain_def seg_append split: option.splits)
  let ?h2 = "(?h[a := Some (c\<lparr>next := next n\<rparr>)])[b := None]"
  from c(1) n have lt: "a < length ?h" "b < length ?h" by (auto dest: lookup_Some_lt)
  from ch have "distinct (map fst (pre @ (a, x) # (b, y) # post))"
    unfolding chain_def by (rule seg_distinct)
  then have na: "a \<notin> fst ` set pre" "a \<notin> fst ` set post" "b \<notin> fst ` set pre"
      "b \<notin> fst ` set post" "a \<noteq> b"
    by auto
  from ix have ne: "index \<noteq> 1" by auto
  from pre ix have loop: "for_loop ?h 0 index (head s) = Inr (Some a)"
    by (intro for_loop_seg) simp_all
  from n na(5) have n1: "lookup (?h[a := Some (c\<lparr>next := next n\<rparr>)]) b = Some n"
    by (simp add: lookup_update)
  have run: "Delete index s = Inr (s\<lparr>heap := ?h2, length' := length' s - 1\<rparr>)"
    using ne loop c n n1
    by (simp add: Delete_def store_next_def deref_def delete_Node_def)
  have "seg ?h2 (head s) pre (Some a)"
    using pre na by (simp add: seg_update_other)
  moreover have "seg ?h2 (next n) post None"
    using post na by (simp add: seg_update_other)
  moreover have "lookup ?h2 a = Some (c\<lparr>next := next n\<rparr>)"
    using lt na(5) by (simp add: lookup_update)
  ultimately have "chain ?h2 (head s) (pre @ (a, x) # post)"
    using c(2) by (auto simp: chain_def seg_append)
  with run show ?thesis by simp
qed

lemma Delete_inner:
  assumes "chain (heap s) (head s) ns" and "2 \<le> sint i" and "sint i \<le> int (length ns)"
  shows "\<exists>s'. Delete i s = Inr s' \<and> length' s' = length' s - 1 \<and>
           chain (heap s') (head s') (take (nat (sint i - 1)) ns @ drop (nat (sint i)) ns)"
proof -
  define k where "k = nat (sint i - 2)"
  from assms(2) have i2: "sint (i - 2) = sint i - 2" by (intro sint_minus_2) simp
  from k_def assms(2,3) have k: "Suc k < length ns" "int k = sint i - 2"
      "nat (sint i - 1) = Suc k" "nat (sint i) = Suc (Suc k)"
    by auto
  obtain a x where ax: "ns ! k = (a, x)" by (cases "ns ! k")
  obtain b y where sk: "ns ! Suc k = (b, y)" by (cases "ns ! Suc k")
  from k(1) ax have "ns = take k ns @ (a, x) # drop (Suc k) ns"
    using id_take_nth_drop [of k ns] by simp
  moreover from k(1) sk have "drop (Suc k) ns = (b, y) # drop (Suc (Suc k)) ns"
    using Cons_nth_drop_Suc [of "Suc k" ns] by simp
  ultimately have "ns = take k ns @ (a, x) # (b, y) # drop (Suc (Suc k)) ns"
    by simp
  with assms(1) have
    "chain (heap s) (head s) (take k ns @ (a, x) # (b, y) # drop (Suc (Suc k)) ns)"
    by simp
  moreover from k(1,2) i2 have "int (length (take k ns)) = sint (i - 2)" by simp
  ultimately obtain s' where "Delete i s = Inr s'" "length' s' = length' s - 1"
    "chain (heap s') (head s') (take k ns @ (a, x) # drop (Suc (Suc k)) ns)"
    using Delete_unlink by blast
  moreover from k(1) ax have "take (Suc k) ns = take k ns @ [(a, x)]"
    by (simp add: take_Suc_conv_app_nth)
  ultimately show ?thesis using k(3,4) by auto
qed

text \<open>
  Claim C6. On a list of \<open>n\<close> nodes and for an index \<open>i\<close> with \<open>1 \<le> i \<le> n\<close>,
  \<^verbatim>\<open>Delete(i)\<close> returns without a fault and leaves the first \<open>i - 1\<close> nodes followed by
  the nodes after the \<open>i\<close>-th: a traversal yields the prior sequence without its
  element at position \<open>i\<close> (counted from 1).
\<close>

theorem Delete_position:
  assumes "chain (heap s) (head s) ns" and "1 \<le> sint i" and "sint i \<le> int (length ns)"
  shows "\<exists>s'. Delete i s = Inr s' \<and>
           chain (heap s') (head s') (take (nat (sint i - 1)) ns @ drop (nat (sint i)) ns) \<and>
           contents (take (nat (sint i - 1)) ns @ drop (nat (sint i)) ns) =
             take (nat (sint i - 1)) (contents ns) @ drop (nat (sint i)) (contents ns)"
proof -
  have c: "contents (take k ns @ drop m ns) = take k (contents ns) @ drop m (contents ns)"
    for k m
    by (simp add: contents_def take_map drop_map)
  show ?thesis
  proof (cases "i = 1")
    case True
    with assms(3) obtain a x ms where ns: "ns = (a, x) # ms" by (cases ns) auto
    with Delete_front [of s a x ms] assms(1) True c [of 0 1] show ?thesis by auto
  next
    case False
    then have "sint i \<noteq> 1" using signed_word_eqI [of i 1] by auto
    with assms(2) have "2 \<le> sint i" by simp
    from Delete_inner [OF assms(1) this assms(3)] c show ?thesis by auto
  qed
qed

theorem Delete_position_witness:
  "chain (heap list_1923) (head list_1923) [(0, 1), (3, 9), (1, 2), (2, 3)] \<and>
   1 \<le> sint (2 :: int32) \<and>
   sint (2 :: int32) \<le> int (length [(0 :: nat, 1 :: int32), (3, 9), (1, 2), (2, 3)]) \<and>
   (\<exists>s'. Delete 2 list_1923 = Inr s' \<and>
      chain (heap s') (head s') [(0, 1), (1, 2), (2, 3)] \<and>
      contents [(0, 1), (1, 2), (2, 3)] = [1, 2, 3])"
proof -
  have h: "chain (heap list_1923) (head list_1923) [(0, 1), (3, 9), (1, 2), (2, 3)]"
    by (simp add: chain_def list_1923_def lookup_def)
  from Delete_position [OF h, of 2] h show ?thesis
    by (simp add: contents_def)
qed

text \<open>
  Claim C4. On every non-empty list, \<^verbatim>\<open>Delete(1)\<close> removes the first node and leaves
  the counter as it was; \<^verbatim>\<open>Delete(i)\<close> with \<open>2 \<le> i \<le> n\<close>, for \<open>n\<close> the number of
  nodes of the list, takes exactly one off the counter. As in \<^verbatim>\<open>InsertAt\<close>, the code
  never reads the counter, so the valid indices are those of the nodes that are there.
\<close>

theorem Delete_length:
  assumes "chain (heap s) (head s) ns" and "ns \<noteq> []"
  shows "(\<exists>s'. Delete 1 s = Inr s' \<and> GetLength s' = GetLength s \<and>
            chain (heap s') (head s') (tl ns)) \<and>
         (\<forall>i. 2 \<le> sint i \<and> sint i \<le> int (length ns) \<longrightarrow>
            (\<exists>s'. Delete i s = Inr s' \<and> GetLength s' = GetLength s - 1))"
proof (intro conjI allI impI)
  from assms(2) obtain a x ms where "ns = (a, x) # ms" by (cases ns) auto
  with Delete_front [of s a x ms] assms(1)
  show "\<exists>s'. Delete 1 s = Inr s' \<and> GetLength s' = GetLength s \<and>
            chain (heap s') (head s') (tl ns)"
    by (simp add: GetLength_def)
next
  fix i :: int32
  assume "2 \<le> sint i \<and> sint i \<le> int (length ns)"
  with Delete_inner [OF assms(1), of i]
  show "\<exists>s'. Delete i s = Inr s' \<and> GetLength s' = GetLength s - 1"
    by (auto simp: GetLength_def)
qed

theorem Delete_length_witness:
  "chain (heap list_123) (head list_123) [(0, 1), (1, 2), (2, 3)] \<and>
   [(0 :: nat, 1 :: int32), (1, 2), (2, 3)] \<noteq> [] \<and>
   (\<exists>s'. Delete 1 list_123 = Inr s' \<and> GetLength s' = 3 \<and>
      chain (heap s') (head s') [(1, 2), (2, 3)]) \<and>
   2 \<le> sint (3 :: int32) \<and>
   sint (3 :: int32) \<le> int (length [(0 :: nat, 1 :: int32), (1, 2), (2, 3)]) \<and>
   (\<exists>s'. Delete 3 list_123 = Inr s' \<and> GetLength s' = 2)"
proof -
  have h: "chain (heap list_123) (head list_123) [(0, 1), (1, 2), (2, 3)]"
    by (simp add: chain_def list_123_def lookup_def)
  have "GetLength list_123 = 3"
    by (simp add: list_123_def GetLength_def)
  with Delete_length [OF h] h show ?thesis
    by simp
qed

section \<open>Indices out of range\<close>

lemma InsertAt_beyond:
  assumes "chain (heap s) (head s) ns" and "int (length ns) + 1 < sint i"
  shows "InsertAt v i s = Inl NullDereference"
proof -
  let ?h2 = "heap s @ [Some \<lparr>data = v, next = None\<rparr>]"
  from assms(1) have seg: "seg ?h2 (head s) ns None"
    unfolding chain_def by (rule seg_extend)
  from assms(2) have i2: "sint (i - 2) = sint i - 2" by (intro sint_minus_2) simp
  have "for_loop ?h2 0 i (head s) = Inl NullDereference \<or>
        for_loop ?h2 0 i (head s) = Inr None"
  proof (cases "int (length ns) = sint i - 2")
    case True
    with seg i2 have "for_loop ?h2 0 i (head s) = Inr None"
      by (intro for_loop_seg) simp_all
    then show ?thesis ..
  next
    case False
    with assms(2) i2 have "int (length ns) < sint (i - 2) - sint (0 :: int32)" by simp
    with seg have "for_loop ?h2 0 i (head s) = Inl NullDereference"
      by (rule for_loop_fault)
    then show ?thesis ..
  qed
  moreover from assms(2) have "i \<noteq> 1" by auto
  ultimately show ?thesis
    by (auto simp: InsertAt_def new_Node_def store_data_def store_next_def deref_def
        lookup_fresh)
qed

lemma Delete_beyond:
  assumes "chain (heap s) (head s) ns" and "int (length ns) < sint i"
  shows "Delete i s = Inl NullDereference"
proof (cases "i = 1")
  case True
  with assms have "head s = None" by (simp add: chain_def)
  with True show ?thesis by (simp add: Delete_def deref_def)
next
  case False
  from assms(1) have seg: "seg (heap s) (head s) ns None" by (simp add: chain_def)
  from False have "sint i \<noteq> 1" using signed_word_eqI [of i 1] by auto
  with assms(2) have "2 \<le> sint i" by simp
  then have i2: "sint (i - 2) = sint i - 2" by (intro sint_minus_2) simp
  consider "int (length ns) < sint i - 2" | "int (length ns) = sint i - 2"
    | "int (length ns) = sint i - 1"
    using assms(2) by linarith
  then show ?thesis
  proof cases
    case 1
    with i2 have "int (length ns) < sint (i - 2) - sint (0 :: int32)" by simp
    with seg have "for_loop (heap s) 0 i (head s) = Inl NullDereference"
      by (rule for_loop_fault)
    with False show ?thesis by (simp add: Delete_def)
  next
    case 2
    with seg i2 have "for_loop (heap s) 0 i (head s) = Inr None"
      by (intro for_loop_seg) simp_all
    with False show ?thesis by (simp add: Delete_def deref_def)
  next
    case 3
    with \<open>2 \<le> sint i\<close> have "ns \<noteq> []" by auto
    then obtain pre a x where ns: "ns = pre @ [(a, x)]"
      by (cases ns rule: rev_cases) auto
    with seg obtain c :: Node where pre: "seg (heap s) (head s) pre (Some a)"
      and c: "lookup (heap s) a = Some c" "next c = None"
      by (auto simp: seg_append split: option.splits)
    from 3 ns i2 have "int (length pre) = sint (i - 2) - sint (0 :: int32)" by simp
    with pre have "for_loop (heap s) 0 i (head s) = Inr (Some a)"
      by (rule for_loop_seg)
    with False c show ?thesis by (simp add: Delete_def deref_def)
  qed
qed

lemma InsertAt_below:
  assumes "- (2 ^ 31) + 2 \<le> sint i" and "sint i < 1"
  shows "InsertAt v i s = InsertAt v 2 s"
proof -
  from assms(1) have "sint (i - 2) = sint i - 2" by (rule sint_minus_2)
  with assms(2) have "sint (i - 2) \<le> sint (0 :: int32)" by simp
  moreover from assms(2) have "i \<noteq> 1" by auto
  ultimately show ?thesis
    by (simp add: InsertAt_def new_Node_def store_data_def store_next_def deref_def
        lookup_fresh for_loop_skip)
qed

lemma Delete_below:
  assumes "- (2 ^ 31) + 2 \<le> sint i" and "sint i < 1"
  shows "Delete i s = Delete 2 s"
proof -
  from assms(1) have "sint (i - 2) = sint i - 2" by (rule sint_minus_2)
  with assms(2) have "sint (i - 2) \<le> sint (0 :: int32)" by simp
  moreover from assms(2) have "i \<noteq> 1" by auto
  ultimately show ?thesis
    by (simp add: Delete_def for_loop_skip)
qed

text \<open>
  Claim C2, as the code has it. The code raises no error and checks no index. On a list of
  \<open>n\<close> nodes, \<^verbatim>\<open>InsertAt\<close> with an index above \<open>n + 1\<close> and \<^verbatim>\<open>Delete\<close> with an index
  above \<open>n\<close> read through \<^verbatim>\<open>nullptr\<close>: undefined behaviour, after which there is
  no list state to speak of. An index below 1 is not rejected either: the traversal loop
  runs zero times, as it does for index 2, and the call does what index 2 does. (The two
  least indices, for which \<^verbatim>\<open>index - 2\<close> overflows, are left out.)
\<close>

theorem out_of_range_behaviour:
  assumes "chain (heap s) (head s) ns"
  shows "(int (length ns) + 1 < sint i \<longrightarrow> InsertAt v i s = Inl NullDereference) \<and>
         (int (length ns) < sint i \<longrightarrow> Delete i s = Inl NullDereference) \<and>
         (- (2 ^ 31) + 2 \<le> sint i \<and> sint i < 1 \<longrightarrow>
            InsertAt v i s = InsertAt v 2 s \<and> Delete i s = Delete 2 s)"
  using assms
  by (simp add: InsertAt_beyond Delete_beyond InsertAt_below Delete_below)

theorem out_of_range_behaviour_witness:
  "chain (heap list_123) (head list_123) [(0, 1), (1, 2), (2, 3)] \<and>
   int (length [(0 :: nat, 1 :: int32), (1, 2), (2, 3)]) + 1 < sint (5 :: int32) \<and>
   InsertAt 9 5 list_123 = Inl NullDereference \<and>
   int (length [(0 :: nat, 1 :: int32), (1, 2), (2, 3)]) < sint (4 :: int32) \<and>
   Delete 4 list_123 = Inl NullDereference \<and>
   - (2 ^ 31) + 2 \<le> sint (0 :: int32) \<and> sint (0 :: int32) < 1 \<and>
   InsertAt 9 0 list_123 = InsertAt 9 2 list_123 \<and>
   Delete 0 list_123 = Delete 2 list_123"
proof -
  have h: "chain (heap list_123) (head list_123) [(0, 1), (1, 2), (2, 3)]"
    by (simp add: chain_def list_123_def lookup_def)
  from out_of_range_behaviour [OF h, of 5 9] out_of_range_behaviour [OF h, of 4 9]
    out_of_range_behaviour [OF h, of 0 9] h
  show ?thesis by simp
qed

text \<open>
  Claim C2 as stated fails: index 0 is below the range, yet \<^verbatim>\<open>InsertAt(9, 0)\<close> on the
  list 1 returns normally with the list 1, 9 and the counter at 2, and \<^verbatim>\<open>Delete(0)\<close>
  on the list 1, 2, 3 returns normally with the list 1, 3 and the counter at 2. Above the
  range the calls end in a null dereference, not in an error the caller receives.
\<close>

theorem out_of_range_counterexample:
  "InsertAt 9 0 list_1 =
     Inr \<lparr>head = Some 0, length' = 2,
          heap = [Some \<lparr>data = 1, next = Some 1\<rparr>, Some \<lparr>data = 9, next = None\<rparr>]\<rparr> \<and>
   Delete 0 list_123 =
     Inr \<lparr>head = Some 0, length' = 2,
          heap = [Some \<lparr>data = 1, next = Some 2\<rparr>, None, Some \<lparr>data = 3, next = None\<rparr>]\<rparr> \<and>
   InsertAt 9 5 list_123 = Inl NullDereference \<and>
   Delete 1 LinkedList_ctor = Inl NullDereference"
  by (simp add: InsertAt_def Delete_def list_1_def list_123_def LinkedList_ctor_def new_Node_def
      store_data_def store_next_def delete_Node_def deref_def lookup_def for_loop.simps)

section \<open>The counter and the number of nodes\<close>

text \<open>
  Claim C1 fails on the code. \<^verbatim>\<open>InsertAt(5, 1)\<close> on the empty list is a valid call and
  leaves the one-element list 5 with the counter still at 0; \<^verbatim>\<open>Delete(1)\<close> on the list
  1 leaves the empty list with the counter still at 1. Both branches for index 1 return
  before the statement that updates the counter, which \<^verbatim>\<open>InsertFront\<close> and the
  branches for the other indices do execute.
\<close>

theorem length_out_of_step:
  "InsertAt 5 1 LinkedList_ctor =
     Inr \<lparr>head = Some 0, length' = 0, heap = [Some \<lparr>data = 5, next = None\<rparr>]\<rparr> \<and>
   GetLength \<lparr>head = Some 0, length' = 0, heap = [Some \<lparr>data = 5, next = None\<rparr>]\<rparr> = 0 \<and>
   chain [Some \<lparr>data = 5, next = None\<rparr>] (Some 0) [(0, 5)] \<and>
   Delete 1 list_1 = Inr \<lparr>head = None, length' = 1, heap = [None]\<rparr> \<and>
   GetLength \<lparr>head = None, length' = 1, heap = [None]\<rparr> = 1 \<and>
   chain [None] None []"
  by (simp add: InsertAt_def Delete_def list_1_def LinkedList_ctor_def new_Node_def
      store_data_def store_next_def delete_Node_def deref_def lookup_def GetLength_def
      chain_def)

section \<open>InsertBack\<close>

lemma InsertBack_loop_seg:
  "seg h p (pre @ [(a, x)]) None \<Longrightarrow> InsertBack_loop h p = Some (Inr (Some a))"
proof (induction pre arbitrary: p)
  case Nil
  then show ?case
    by (subst InsertBack_loop.simps) (auto simp: deref_def split: option.splits)
next
  case (Cons n pre)
  obtain b y where n: "n = (b, y)" by (cases n)
  with Cons.prems obtain c :: Node where c: "p = Some b" "lookup h b = Some c"
      "seg h (next c) (pre @ [(a, x)]) None"
    by (auto split: option.splits)
  from c(3) have "next c \<noteq> None" by (cases pre) auto
  with Cons.IH [OF c(3)] c(1,2) show ?case
    by (subst InsertBack_loop.simps) (simp add: deref_def)
qed

lemma InsertBack_chain:
  assumes "chain (heap s) (head s) ns"
  shows "\<exists>s'. InsertBack v s = Some (Inr s') \<and> length' s' = length' s + 1 \<and>
           chain (heap s') (head s') (ns @ [(length (heap s), v)])"
proof (cases ns rule: rev_cases)
  case Nil
  with assms have "head s = None" by (simp add: chain_def)
  with Nil show ?thesis
    by (simp add: InsertBack_def new_Node_def store_data_def store_next_def deref_def
        lookup_fresh chain_def)
next
  case (snoc pre n)
  obtain a x where n: "n = (a, x)" by (cases n)
  let ?node = "length (heap s)"
  let ?h2 = "heap s @ [Some \<lparr>data = v, next = None\<rparr>]"
  from assms snoc n have seg: "seg (heap s) (head s) (pre @ [(a, x)]) None"
    by (simp add: chain_def)
  then obtain c :: Node where pre: "seg (heap s) (head s) pre (Some a)"
    and c: "lookup (heap s) a = Some c" "data c = x" "next c = None"
    by (auto simp: seg_append split: option.splits)
  let ?h3 = "?h2[a := Some (c\<lparr>next := Some ?node\<rparr>)]"
  from c(1) have lt: "a < ?node" by (rule lookup_Some_lt)
  from seg have "distinct (map fst (pre @ [(a, x)]))" by (rule seg_distinct)
  then have na: "a \<notin> fst ` set pre" by auto
  from seg have "seg ?h2 (head s) (pre @ [(a, x)]) None" by (rule seg_extend)
  then have loop: "InsertBack_loop ?h2 (head s) = Some (Inr (Some a))"
    by (rule InsertBack_loop_seg)
  from seg obtain b where "head s = Some b" by (cases pre) auto
  moreover from c(1) have "lookup ?h2 a = Some c" by (rule lookup_append)
  ultimately have run:
    "InsertBack v s = Some (Inr (s\<lparr>heap := ?h3, length' := length' s + 1\<rparr>))"
    using loop
    by (simp add: InsertBack_def new_Node_def store_data_def store_next_def deref_def
        lookup_fresh)
  have "seg ?h3 (head s) pre (Some a)"
    using pre na by (rule seg_spliced)
  moreover have "lookup ?h3 a = Some (c\<lparr>next := Some ?node\<rparr>)"
    using lt by (simp add: lookup_update)
  moreover have "lookup ?h3 ?node = Some \<lparr>data = v, next = None\<rparr>"
    using lt by (simp add: lookup_update lookup_fresh)
  ultimately have "chain ?h3 (head s) (pre @ [(a, x), (?node, v)])"
    using c(2) by (auto simp: chain_def seg_append)
  with run snoc n show ?thesis by simp
qed

text \<open>
  \<^verbatim>\<open>InsertBack(v)\<close> on every list returns without a fault, adds one to the counter, and
  leaves the prior nodes in their order followed by a new node holding \<open>v\<close>.
\<close>

theorem InsertBack_correct:
  assumes "chain (heap s) (head s) ns"
  shows "\<exists>s'. InsertBack v s = Some (Inr s') \<and> GetLength s' = GetLength s + 1 \<and>
           chain (heap s') (head s') (ns @ [(length (heap s), v)]) \<and>
           contents (ns @ [(length (heap s), v)]) = contents ns @ [v]"
  using InsertBack_chain [OF assms, of v] by (simp add: GetLength_def contents_def)

theorem InsertBack_correct_witness:
  "chain (heap list_123) (head list_123) [(0, 1), (1, 2), (2, 3)] \<and>
   (\<exists>s'. InsertBack 7 list_123 = Some (Inr s') \<and> GetLength s' = GetLength list_123 + 1 \<and>
      chain (heap s') (head s') [(0, 1), (1, 2), (2, 3), (3, 7)] \<and>
      contents [(0, 1), (1, 2), (2, 3), (3, 7)] = contents [(0, 1), (1, 2), (2, 3)] @ [7])"
proof -
  have h: "chain (heap list_123) (head list_123) [(0, 1), (1, 2), (2, 3)]"
    by (simp add: chain_def list_123_def lookup_def)
  have "length (heap list_123) = 3"
    by (simp add: list_123_def)
  with InsertBack_correct [OF h, of 7] h show ?thesis by simp
qed

section \<open>Where the counter stays in step\<close>

lemma apply_op_in_step:
  assumes "chain (heap s) (head s) ns" and "length' s = of_nat (length ns)"
    and "off_front (x # xs) (length ns)"
  shows "\<exists>s' ns'. apply_op x s = Some (Inr s') \<and> chain (heap s') (head s') ns' \<and>
           length' s' = of_nat (length ns') \<and> off_front xs (length ns')"
proof (cases x)
  case (OpInsertFront v)
  from InsertFront_chain [OF assms(1), of v] obtain s' where
    "InsertFront v s = Inr s'" "length' s' = length' s + 1"
    "chain (heap s') (head s') ((length (heap s), v) # ns)"
    by blast
  with assms(2,3) OpInsertFront show ?thesis
    by (intro exI [of _ s'] exI [of _ "(length (heap s), v) # ns"]) simp
next
  case (OpInsertBack v)
  from InsertBack_chain [OF assms(1), of v] obtain s' where
    "InsertBack v s = Some (Inr s')" "length' s' = length' s + 1"
    "chain (heap s') (head s') (ns @ [(length (heap s), v)])"
    by blast
  with assms(2,3) OpInsertBack show ?thesis
    by (intro exI [of _ s'] exI [of _ "ns @ [(length (heap s), v)]"]) simp
next
  case (OpInsertAt v i)
  with assms(3) have i: "2 \<le> sint i" "sint i \<le> int (length ns) + 1" by simp_all
  from InsertAt_inner [OF assms(1) i, of v] obtain s' where s': "InsertAt v i s = Inr s'"
    "length' s' = length' s + 1"
    "chain (heap s') (head s')
       (take (nat (sint i - 1)) ns @ (length (heap s), v) # drop (nat (sint i - 1)) ns)"
    by blast
  from i have "length (take (nat (sint i - 1)) ns @ (length (heap s), v) #
      drop (nat (sint i - 1)) ns) = Suc (length ns)"
    by auto
  with s' assms(2,3) OpInsertAt show ?thesis
    by (intro exI [of _ s']
        exI [of _ "take (nat (sint i - 1)) ns @ (length (heap s), v) #
          drop (nat (sint i - 1)) ns"])
      simp
next
  case (OpDelete i)
  with assms(3) have i: "2 \<le> sint i" "sint i \<le> int (length ns)" by simp_all
  from Delete_inner [OF assms(1) i] obtain s' where s': "Delete i s = Inr s'"
    "length' s' = length' s - 1"
    "chain (heap s') (head s') (take (nat (sint i - 1)) ns @ drop (nat (sint i)) ns)"
    by blast
  from i have len: "length (take (nat (sint i - 1)) ns @ drop (nat (sint i)) ns) =
      length ns - 1" "0 < length ns"
    by auto
  from len(2) have "(of_nat (length ns - 1) :: int32) = of_nat (length ns) - 1"
    by (cases "length ns") simp_all
  with s' len(1) assms(2,3) OpDelete show ?thesis
    by (intro exI [of _ s'] exI [of _ "take (nat (sint i - 1)) ns @ drop (nat (sint i)) ns"])
      simp
next
  case OpReverse
  from Reverse_chain [OF assms(1)] obtain s' where
    "Reverse s = Some (Inr s')" "length' s' = length' s" "chain (heap s') (head s') (rev ns)"
    by blast
  with assms(2,3) OpReverse show ?thesis
    by (intro exI [of _ s'] exI [of _ "rev ns"]) simp
qed

lemma run_in_step:
  "chain (heap s) (head s) ns \<Longrightarrow> length' s = of_nat (length ns) \<Longrightarrow>
   off_front xs (length ns) \<Longrightarrow>
   \<exists>s' ns'. run xs s = Some (Inr s') \<and> chain (heap s') (head s') ns' \<and>
     length' s' = of_nat (length ns')"
proof (induction xs arbitrary: s ns)
  case Nil
  then show ?case by auto
next
  case (Cons x xs)
  from apply_op_in_step [OF Cons.prems] obtain s1 ns1 where
    1: "apply_op x s = Some (Inr s1)" "chain (heap s1) (head s1) ns1"
       "length' s1 = of_nat (length ns1)" "off_front xs (length ns1)"
    by blast
  from Cons.IH [OF 1(2,3,4)] 1(1) show ?case by simp
qed

text \<open>
  Started from the constructor's state, a sequence of calls in which every
  \<^verbatim>\<open>InsertAt\<close> and \<^verbatim>\<open>Delete\<close> has an index in range and other than 1 runs to its
  end without a fault, and \<^verbatim>\<open>GetLength()\<close> then returns the number of elements a
  traversal yields (as a 32-bit value; the number itself while it is below \<open>2 ^ 31\<close>).
\<close>

theorem length_in_step_off_front:
  assumes "off_front xs 0"
  shows "\<exists>s ns. run xs LinkedList_ctor = Some (Inr s) \<and> chain (heap s) (head s) ns \<and>
           GetLength s = of_nat (length (contents ns)) \<and>
           (length (contents ns) < 2 ^ 31 \<longrightarrow>
              sint (GetLength s) = int (length (contents ns)))"
proof -
  have "chain (heap LinkedList_ctor) (head LinkedList_ctor) []"
    "length' LinkedList_ctor = of_nat (length ([] :: (nat \<times> int32) list))"
    by (simp_all add: LinkedList_ctor_def chain_def)
  from run_in_step [OF this, of xs] assms have
    "\<exists>s ns. run xs LinkedList_ctor = Some (Inr s) \<and> chain (heap s) (head s) ns \<and>
       length' s = of_nat (length ns)"
    by simp
  then obtain s ns where
    r: "run xs LinkedList_ctor = Some (Inr s)" "chain (heap s) (head s) ns"
       "length' s = of_nat (length ns)"
    by blast
  have "sint (of_nat (length ns) :: int32) = int (length ns)" if "length ns < 2 ^ 31"
    using that by (simp add: signed_of_nat signed_take_bit_int_eq_self)
  with r show ?thesis
    by (auto simp: GetLength_def contents_def)
qed

theorem length_in_step_off_front_witness:
  "off_front [OpInsertFront 1, OpInsertBack 3, OpInsertAt 2 2, OpReverse, OpDelete 3] 0 \<and>
   (\<exists>s ns. run [OpInsertFront 1, OpInsertBack 3, OpInsertAt 2 2, OpReverse, OpDelete 3]
        LinkedList_ctor = Some (Inr s) \<and>
      chain (heap s) (head s) ns \<and> GetLength s = of_nat (length (contents ns)) \<and>
      (length (contents ns) < 2 ^ 31 \<longrightarrow> sint (GetLength s) = int (length (contents ns))))"
proof -
  have h: "off_front [OpInsertFront 1, OpInsertBack 3, OpInsertAt 2 2, OpReverse, OpDelete 3] 0"
    by simp
  from length_in_step_off_front [OF h] h show ?thesis by simp
qed

end
